theory Spec2Isabelle
  imports Main "HOL-Library.Sublist"
begin

section \<open>The thread-locked CUDA context of \<^verbatim>\<open>ctx.go\<close> and \<^verbatim>\<open>ctx_debug.go\<close>\<close>

text \<open>
  The development embeds the type \<^verbatim>\<open>Ctx\<close>, its constructors, \<^verbatim>\<open>Close\<close>, \<^verbatim>\<open>Do\<close>
  and \<^verbatim>\<open>Run\<close>. The constructors and \<^verbatim>\<open>Close\<close> are sequential code and become
  functions that pass the \<^verbatim>\<open>Ctx\<close> and the channel heap explicitly. \<^verbatim>\<open>Do\<close> and
  \<^verbatim>\<open>Run\<close> communicate over unbuffered channels; each goroutine becomes a program
  counter, and every statement that can block or panic becomes one transition of a
  step function over the configuration of all goroutines.
\<close>

subsection \<open>Go values: errors, panics, channels\<close>

text \<open>A Go \<^verbatim>\<open>error\<close> is \<^verbatim>\<open>nil\<close> (\<open>None\<close>) or an error carrying its message.\<close>

type_synonym goerror = "string option"

text \<open>
  The panics the code can raise: \<^verbatim>\<open>panic(err)\<close> in the constructors, and the run-time
  panics of the channel operations and of calling a nil function value.
\<close>

datatype panic =
    PanicError string
  | CloseOfNilChannel
  | CloseOfClosedChannel
  | SendOnClosedChannel
  | NilDereference

datatype 'a outcome = Returned 'a | Panic panic

text \<open>
  A channel value is a reference or \<^verbatim>\<open>nil\<close>. All channels of the code are made
  by \<^verbatim>\<open>make(chan T)\<close> without a capacity, so a channel holds no elements: its only
  state is whether it has been closed. The heap lists that flag for every channel
  made so far; a reference is the index.
\<close>

type_synonym chan = nat
type_synonym chans = "bool list"

definition make_chan :: "chans \<Rightarrow> chan \<times> chans" where
  "make_chan h = (length h, h @ [False])"

definition is_closed :: "chans \<Rightarrow> chan \<Rightarrow> bool" where
  "is_closed h c = (c < length h \<and> h ! c)"

text \<open>\<^verbatim>\<open>close(c)\<close> panics on a nil channel and on a channel that is already closed.\<close>

definition close_chan :: "chan option \<Rightarrow> chans \<Rightarrow> panic + chans" where
  "close_chan co h =
     (case co of
        None \<Rightarrow> Inl CloseOfNilChannel
      | Some c \<Rightarrow> if is_closed h c then Inl CloseOfClosedChannel else Inr (h[c := True]))"

subsection \<open>The native driver\<close>

text \<open>
  The cgo calls are taken as parameters. \<open>cuCtxCreate flags device\<close> gives the
  error of \<^verbatim>\<open>result(C.cuCtxCreate(&cctx, flags, d))\<close> and the handle written to
  \<^verbatim>\<open>cctx\<close>; \<open>SetCurrentContext\<close> and \<open>cuCtxDestroy\<close> give the error of the
  call on a handle. A handle is a pointer; \<open>0\<close> is the nil pointer, the value of
  \<^verbatim>\<open>var empty C.CUcontext\<close>.
\<close>

type_synonym cucontext = nat

definition emptyCUcontext :: cucontext where
  "emptyCUcontext = 0"

record driver =
  cuCtxCreate :: "nat \<Rightarrow> int \<Rightarrow> goerror \<times> cucontext"
  SetCurrentContext :: "cucontext \<Rightarrow> goerror"
  cuCtxDestroy :: "cucontext \<Rightarrow> goerror"

subsection \<open>\<^verbatim>\<open>type Ctx struct\<close>\<close>

text \<open>
  The fields of the struct in the source's order (the channel \<^verbatim>\<open>done\<close> is named
  \<open>doneChan\<close>; the mutex \<^verbatim>\<open>mu\<close>, which no function of the source locks, is left
  out).
\<close>

record Ctx =
  CUContext :: cucontext
  work :: "chan option"
  errChan :: "chan option"
  doneChan :: "chan option"
  err :: goerror
  device :: int
  flags :: nat
  locked :: bool
  doneClosed :: bool

text \<open>
  \<^verbatim>\<open>newContext\<close> (debug build): the composite literal sets the handle and makes the
  two channels; every other field has its zero value, so \<^verbatim>\<open>done\<close> is nil. The
  finalizer it registers runs \<^verbatim>\<open>Close\<close> at a time the collector chooses and is not
  part of the model.
\<close>

definition newContext :: "cucontext \<Rightarrow> chans \<Rightarrow> Ctx \<times> chans" where
  "newContext c h =
     (let (w, h1) = make_chan h;
          (e, h2) = make_chan h1
      in (\<lparr>CUContext = c, work = Some w, errChan = Some e, doneChan = None, err = None,
           device = 0, flags = 0, locked = False, doneClosed = False\<rparr>, h2))"

definition NewManuallyManagedContext ::
  "driver \<Rightarrow> int \<Rightarrow> nat \<Rightarrow> chans \<Rightarrow> (Ctx \<times> chans) outcome" where
  "NewManuallyManagedContext drv d fl h =
     (case cuCtxCreate drv fl d of
        (Some e, cctx) \<Rightarrow> Panic (PanicError e)
      | (None, cctx) \<Rightarrow>
          (let (c, h') = newContext cctx h
           in Returned (c\<lparr>device := d, flags := fl\<rparr>, h')))"

definition CtxFromCUContext :: "int \<Rightarrow> cucontext \<Rightarrow> nat \<Rightarrow> chans \<Rightarrow> Ctx \<times> chans" where
  "CtxFromCUContext d cuctx fl h =
     (let (c, h') = newContext cuctx h in (c\<lparr>device := d, flags := fl\<rparr>, h'))"

subsection \<open>\<^verbatim>\<open>Close\<close> (debug build)\<close>

text \<open>
  \<^verbatim>\<open>Close\<close> returns the error of the native destroy call, the updated \<^verbatim>\<open>Ctx\<close> and
  heap, and the list of its effects in the order it performs them.
\<close>

datatype effect = ChanClosed chan | NativeDestroy cucontext | HandleReleased

text \<open>\<^verbatim>\<open>if ch != nil { close(ch); ch = nil }\<close>, for one channel field.\<close>

definition close_field :: "chan option \<Rightarrow> chans \<Rightarrow> panic + (chans \<times> effect list)" where
  "close_field co h =
     (case co of
        None \<Rightarrow> Inr (h, [])
      | Some c \<Rightarrow>
          (case close_chan (Some c) h of
             Inl p \<Rightarrow> Inl p
           | Inr h' \<Rightarrow> Inr (h', [ChanClosed c])))"

definition Close ::
  "driver \<Rightarrow> Ctx \<Rightarrow> chans \<Rightarrow> (goerror \<times> Ctx \<times> chans \<times> effect list) outcome" where
  "Close drv c h =
     (if CUContext c = emptyCUcontext then Returned (None, c, h, [])
      else
        (case close_field (errChan c) h of
           Inl p \<Rightarrow> Panic p
         | Inr (h1, t1) \<Rightarrow>
             (case close_field (work c) h1 of
                Inl p \<Rightarrow> Panic p
              | Inr (h2, t2) \<Rightarrow>
                  Returned
                    (cuCtxDestroy drv (CUContext c),
                     c\<lparr>errChan := None, work := None, CUContext := emptyCUcontext\<rparr>,
                     h2,
                     t1 @ t2 @ [NativeDestroy (CUContext c), HandleReleased]))))"

text \<open>The number of native destroy calls among a list of effects.\<close>

definition destroys :: "effect list \<Rightarrow> nat" where
  "destroys t = length (filter (\<lambda>x. case x of NativeDestroy _ \<Rightarrow> True | _ \<Rightarrow> False) t)"

subsection \<open>Goroutines\<close>

text \<open>
  A closure \<^verbatim>\<open>func() error\<close> acts on whatever it captures; \<open>'w\<close> is the state it
  can read and change (the device behind the context, a shared log), and running it
  gives its error and the new state. A function value may be nil.
\<close>

type_synonym 'w closure = "'w \<Rightarrow> goerror \<times> 'w"

text \<open>
  A goroutine inside \<^verbatim>\<open>Do(fn)\<close>. A channel operand is evaluated when the statement
  is reached, so a blocked goroutine holds the channel value it read from the field.
  \<^item> \<open>DoSend c fn\<close>: at \<^verbatim>\<open>ctx.work <- fn\<close>, with \<open>c\<close> the value of \<^verbatim>\<open>ctx.work\<close>;
  \<^item> \<open>DoRecv c\<close>: at \<^verbatim>\<open><-ctx.errChan\<close>, with \<open>c\<close> the value of \<^verbatim>\<open>ctx.errChan\<close>;
  \<^item> \<open>DoReturned e\<close>: \<^verbatim>\<open>Do\<close> has returned \<open>e\<close>.
\<close>

datatype 'w caller =
    DoSend "chan option" "'w closure option"
  | DoRecv "chan option"
  | DoReturned goerror

text \<open>
  The goroutine inside \<^verbatim>\<open>Run(errChan)\<close>.
  \<^item> \<open>RunStart ec\<close>: entered with argument \<open>ec\<close>, before \<^verbatim>\<open>SetCurrentContext\<close>;
  \<^item> \<open>RunReport c e\<close>: at \<^verbatim>\<open>errChan <- err\<close> after a failed activation;
  \<^item> \<open>RunSelect wc dc\<close>: at the \<^verbatim>\<open>select\<close> of the loop, with \<open>wc\<close> and \<open>dc\<close> the
    values of \<^verbatim>\<open>ctx.work\<close> and \<^verbatim>\<open>ctx.done\<close> read on entering it;
  \<^item> \<open>RunCall k w\<close>: \<^verbatim>\<open>w\<close> has been received and \<^verbatim>\<open>w()\<close> is about to be called;
  \<^item> \<open>RunPush k c e\<close>: at the send of \<^verbatim>\<open>ctx.errChan <- w()\<close>, where \<open>c\<close> is the value
    of \<^verbatim>\<open>ctx.errChan\<close> and \<open>e\<close> the error \<^verbatim>\<open>w()\<close> returned;
  \<^item> \<open>RunReturned e\<close>: \<^verbatim>\<open>Run\<close> has returned \<open>e\<close>.
  The number \<open>k\<close> is not data of the program: it records which \<^verbatim>\<open>Do\<close> call (its
  position among the callers) sent the closure, so that theorems can say whose task
  the loop is working on.
\<close>

datatype 'w runloop =
    RunStart "chan option"
  | RunReport chan string
  | RunSelect "chan option" "chan option"
  | RunCall nat "'w closure option"
  | RunPush nat "chan option" goerror
  | RunReturned goerror

text \<open>
  The goroutine inside \<^verbatim>\<open>NewContext\<close> after \<^verbatim>\<open>go ctx.Run(errChan)\<close>: it waits in
  \<^verbatim>\<open><-errChan\<close> and then panics or returns the context.
\<close>

datatype ctor = CtorWait chan | CtorReturned

text \<open>
  What the run loop did, in order: \<open>Received k\<close> when it takes the closure of caller
  \<open>k\<close> from \<^verbatim>\<open>ctx.work\<close>, \<open>Invoked k w e\<close> when it calls that closure in state \<open>w\<close>
  and the closure returns \<open>e\<close>, \<open>Delivered k j e\<close> when its send of \<open>e\<close> on
  \<^verbatim>\<open>ctx.errChan\<close> is received by caller \<open>j\<close>.
\<close>

datatype 'w event = Received nat | Invoked nat 'w goerror | Delivered nat nat goerror

record 'w config =
  ctx :: Ctx
  heap :: chans
  world :: 'w
  runner :: "'w runloop option"
  callers :: "'w caller list"
  ctor :: "ctor option"
  trace :: "'w event list"
  crashed :: "panic option"

text \<open>\<^verbatim>\<open>Do(fn)\<close> is entered: the goroutine reaches the send on \<^verbatim>\<open>ctx.work\<close>.\<close>

definition Do :: "Ctx \<Rightarrow> 'w closure option \<Rightarrow> 'w caller" where
  "Do c fn = DoSend (work c) fn"

text \<open>A context with no goroutine using it yet.\<close>

definition idle :: "Ctx \<Rightarrow> chans \<Rightarrow> 'w \<Rightarrow> 'w config" where
  "idle c h w =
     \<lparr>ctx = c, heap = h, world = w, runner = None, callers = [], ctor = None,
      trace = [], crashed = None\<rparr>"

text \<open>Goroutines call \<^verbatim>\<open>Do\<close>, one per closure.\<close>

definition submit :: "'w closure option list \<Rightarrow> 'w config \<Rightarrow> 'w config" where
  "submit fns s = s\<lparr>callers := callers s @ map (Do (ctx s)) fns\<rparr>"

text \<open>A goroutine calls \<^verbatim>\<open>ctx.Run(ec)\<close>.\<close>

definition go_Run :: "chan option \<Rightarrow> 'w config \<Rightarrow> 'w config" where
  "go_Run ec s = s\<lparr>runner := Some (RunStart ec)\<rparr>"

text \<open>
  \<^verbatim>\<open>NewContext\<close> up to its receive on the completion channel: the native create
  call, \<^verbatim>\<open>newContext\<close>, the completion channel, and the run loop started on it.
\<close>

definition NewContext ::
  "driver \<Rightarrow> int \<Rightarrow> nat \<Rightarrow> chans \<Rightarrow> 'w \<Rightarrow> 'w config outcome" where
  "NewContext drv d fl h w =
     (case cuCtxCreate drv fl d of
        (Some e, cctx) \<Rightarrow> Panic (PanicError e)
      | (None, cctx) \<Rightarrow>
          (let (c, h1) = newContext cctx h;
               (ec, h2) = make_chan h1
           in Returned
                ((go_Run (Some ec) (idle (c\<lparr>device := d, flags := fl\<rparr>) h2 w))
                   \<lparr>ctor := Some (CtorWait ec)\<rparr>)))"

text \<open>A goroutine calls \<^verbatim>\<open>ctx.Close()\<close>, which runs to its end.\<close>

definition Close_in :: "driver \<Rightarrow> 'w config \<Rightarrow> (goerror \<times> 'w config) outcome" where
  "Close_in drv s =
     (case Close drv (ctx s) (heap s) of
        Panic p \<Rightarrow> Panic p
      | Returned (r, c', h', t) \<Rightarrow> Returned (r, s\<lparr>ctx := c', heap := h'\<rparr>))"

subsection \<open>Transitions\<close>

text \<open>
  One label per way a goroutine can move. A send and a receive on an open unbuffered
  channel happen together, as one transition of both goroutines. On a closed channel
  a send panics and a receive yields the zero value at once. On a nil channel neither
  ever happens: no transition exists. A panic ends the program (\<open>crashed\<close>), after
  which nothing moves.
\<close>

datatype label =
    Activate
  | Report
  | ReportClosed
  | Ready
  | Accept nat
  | AcceptClosed
  | Stop
  | Call
  | Push nat
  | PushClosed
  | SendClosed nat
  | RecvClosed nat

text \<open>
  \<open>Activate\<close>: \<^verbatim>\<open>Run\<close> from its entry to its first blocking point. When
  \<^verbatim>\<open>SetCurrentContext\<close> fails, the error is sent on \<^verbatim>\<open>errChan\<close> if that is not nil
  and returned otherwise. When it succeeds, \<^verbatim>\<open>close(errChan)\<close> runs, whatever
  \<^verbatim>\<open>errChan\<close> is, and the loop is entered.
\<close>

definition activate :: "driver \<Rightarrow> 'w config \<Rightarrow> 'w config option" where
  "activate drv s =
     (case runner s of
        Some (RunStart ec) \<Rightarrow>
          (case SetCurrentContext drv (CUContext (ctx s)) of
             Some e \<Rightarrow>
               (case ec of
                  Some c \<Rightarrow> Some (s\<lparr>runner := Some (RunReport c e)\<rparr>)
                | None \<Rightarrow> Some (s\<lparr>runner := Some (RunReturned (Some e))\<rparr>))
           | None \<Rightarrow>
               (case close_chan ec (heap s) of
                  Inl p \<Rightarrow> Some (s\<lparr>crashed := Some p\<rparr>)
                | Inr h' \<Rightarrow>
                    Some (s\<lparr>heap := h',
                            runner := Some (RunSelect (work (ctx s)) (doneChan (ctx s)))\<rparr>)))
      | _ \<Rightarrow> None)"

text \<open>
  \<open>Report\<close>: the send \<^verbatim>\<open>errChan <- err\<close> meets the receive in \<^verbatim>\<open>NewContext\<close>;
  \<^verbatim>\<open>Run\<close> returns nil and \<^verbatim>\<open>NewContext\<close> panics with the error it received.
  \<open>ReportClosed\<close>: the send finds the channel closed.
\<close>

definition report :: "'w config \<Rightarrow> 'w config option" where
  "report s =
     (case (runner s, ctor s) of
        (Some (RunReport c e), Some (CtorWait c')) \<Rightarrow>
          if c' = c \<and> \<not> is_closed (heap s) c
          then Some (s\<lparr>runner := Some (RunReturned None), crashed := Some (PanicError e)\<rparr>)
          else None
      | _ \<Rightarrow> None)"

definition report_closed :: "'w config \<Rightarrow> 'w config option" where
  "report_closed s =
     (case runner s of
        Some (RunReport c e) \<Rightarrow>
          if is_closed (heap s) c then Some (s\<lparr>crashed := Some SendOnClosedChannel\<rparr>)
          else None
      | _ \<Rightarrow> None)"

text \<open>
  \<open>Ready\<close>: the receive in \<^verbatim>\<open>NewContext\<close> finds the completion channel closed and
  gets the zero value nil, so \<^verbatim>\<open>NewContext\<close> returns the context.
\<close>

definition ready :: "'w config \<Rightarrow> 'w config option" where
  "ready s =
     (case ctor s of
        Some (CtorWait c) \<Rightarrow>
          if is_closed (heap s) c then Some (s\<lparr>ctor := Some CtorReturned\<rparr>) else None
      | _ \<Rightarrow> None)"

text \<open>
  \<open>Accept k\<close>: the case \<^verbatim>\<open>w := <-ctx.work\<close> of the select meets the send of caller
  \<open>k\<close>. The caller goes on to \<^verbatim>\<open><-ctx.errChan\<close>.
  \<open>AcceptClosed\<close>: \<^verbatim>\<open>ctx.work\<close> is closed, the receive yields a nil function value,
  and calling it panics.
  \<open>Stop\<close>: the case \<^verbatim>\<open><-ctx.done\<close>, which can only fire once that channel is closed,
  as nothing sends on it. The loop then ends and \<^verbatim>\<open>Run\<close> returns nil.
\<close>

definition accept :: "nat \<Rightarrow> 'w config \<Rightarrow> 'w config option" where
  "accept k s =
     (case runner s of
        Some (RunSelect (Some c) dc) \<Rightarrow>
          if k < length (callers s) \<and> \<not> is_closed (heap s) c
          then (case callers s ! k of
                  DoSend c' fn \<Rightarrow>
                    if c' = Some c
                    then Some (s\<lparr>runner := Some (RunCall k fn),
                                 callers := (callers s)[k := DoRecv (errChan (ctx s))],
                                 trace := trace s @ [Received k]\<rparr>)
                    else None
                | _ \<Rightarrow> None)
          else None
      | _ \<Rightarrow> None)"

definition accept_closed :: "'w config \<Rightarrow> 'w config option" where
  "accept_closed s =
     (case runner s of
        Some (RunSelect (Some c) dc) \<Rightarrow>
          if is_closed (heap s) c then Some (s\<lparr>crashed := Some NilDereference\<rparr>) else None
      | _ \<Rightarrow> None)"

definition stop :: "'w config \<Rightarrow> 'w config option" where
  "stop s =
     (case runner s of
        Some (RunSelect wc (Some d)) \<Rightarrow>
          if is_closed (heap s) d then Some (s\<lparr>runner := Some (RunReturned None)\<rparr>) else None
      | _ \<Rightarrow> None)"

text \<open>
  \<open>Call\<close>: the operands of \<^verbatim>\<open>ctx.errChan <- w()\<close> are evaluated: the field is read
  and the closure runs.
\<close>

definition call :: "'w config \<Rightarrow> 'w config option" where
  "call s =
     (case runner s of
        Some (RunCall k None) \<Rightarrow> Some (s\<lparr>crashed := Some NilDereference\<rparr>)
      | Some (RunCall k (Some f)) \<Rightarrow>
          (let (e, w') = f (world s)
           in Some (s\<lparr>world := w', runner := Some (RunPush k (errChan (ctx s)) e),
                      trace := trace s @ [Invoked k (world s) e]\<rparr>))
      | _ \<Rightarrow> None)"

text \<open>
  \<open>Push j\<close>: the send on \<^verbatim>\<open>ctx.errChan\<close> meets the receive of caller \<open>j\<close>, whose
  \<^verbatim>\<open>Do\<close> returns the value. \<open>PushClosed\<close>: the send finds the channel closed.
\<close>

definition push :: "nat \<Rightarrow> 'w config \<Rightarrow> 'w config option" where
  "push j s =
     (case runner s of
        Some (RunPush k (Some c) e) \<Rightarrow>
          if j < length (callers s) \<and> \<not> is_closed (heap s) c \<and> callers s ! j = DoRecv (Some c)
          then Some (s\<lparr>runner := Some (RunSelect (work (ctx s)) (doneChan (ctx s))),
                       callers := (callers s)[j := DoReturned e],
                       trace := trace s @ [Delivered k j e]\<rparr>)
          else None
      | _ \<Rightarrow> None)"

definition push_closed :: "'w config \<Rightarrow> 'w config option" where
  "push_closed s =
     (case runner s of
        Some (RunPush k (Some c) e) \<Rightarrow>
          if is_closed (heap s) c then Some (s\<lparr>crashed := Some SendOnClosedChannel\<rparr>)
          else None
      | _ \<Rightarrow> None)"

text \<open>
  \<open>SendClosed k\<close>: the send of caller \<open>k\<close> finds its channel closed.
  \<open>RecvClosed k\<close>: the receive of caller \<open>k\<close> finds its channel closed and \<^verbatim>\<open>Do\<close>
  returns the zero value nil.
\<close>

definition send_closed :: "nat \<Rightarrow> 'w config \<Rightarrow> 'w config option" where
  "send_closed k s =
     (if k < length (callers s)
      then (case callers s ! k of
              DoSend (Some c) fn \<Rightarrow>
                if is_closed (heap s) c then Some (s\<lparr>crashed := Some SendOnClosedChannel\<rparr>)
                else None
            | _ \<Rightarrow> None)
      else None)"

definition recv_closed :: "nat \<Rightarrow> 'w config \<Rightarrow> 'w config option" where
  "recv_closed k s =
     (if k < length (callers s)
      then (case callers s ! k of
              DoRecv (Some c) \<Rightarrow>
                if is_closed (heap s) c
                then Some (s\<lparr>callers := (callers s)[k := DoReturned None]\<rparr>)
                else None
            | _ \<Rightarrow> None)
      else None)"

fun move :: "driver \<Rightarrow> label \<Rightarrow> 'w config \<Rightarrow> 'w config option" where
  "move drv Activate s = activate drv s"
| "move drv Report s = report s"
| "move drv ReportClosed s = report_closed s"
| "move drv Ready s = ready s"
| "move drv (Accept k) s = accept k s"
| "move drv AcceptClosed s = accept_closed s"
| "move drv Stop s = stop s"
| "move drv Call s = call s"
| "move drv (Push j) s = push j s"
| "move drv PushClosed s = push_closed s"
| "move drv (SendClosed k) s = send_closed k s"
| "move drv (RecvClosed k) s = recv_closed k s"

text \<open>A transition of the program: nothing moves after a panic.\<close>

definition fire :: "driver \<Rightarrow> label \<Rightarrow> 'w config \<Rightarrow> 'w config option" where
  "fire drv l s = (if crashed s = None then move drv l s else None)"

text \<open>A schedule is the list of labels taken, in order.\<close>

fun exec :: "driver \<Rightarrow> label list \<Rightarrow> 'w config \<Rightarrow> 'w config option" where
  "exec drv [] s = Some s"
| "exec drv (l # ls) s =
     (case fire drv l s of None \<Rightarrow> None | Some s' \<Rightarrow> exec drv ls s')"

text \<open>
  The labels worth trying in a configuration, and the configurations one transition
  away. A configuration with no successor is stuck: every goroutine that has not
  returned is blocked for ever.
\<close>

definition labels :: "'w config \<Rightarrow> label list" where
  "labels s =
     [Activate, Report, ReportClosed, Ready, AcceptClosed, Stop, Call, PushClosed]
     @ concat (map (\<lambda>k. [Accept k, Push k, SendClosed k, RecvClosed k])
                   [0 ..< length (callers s)])"

definition steps :: "driver \<Rightarrow> 'w config \<Rightarrow> 'w config list" where
  "steps drv s = List.map_filter (\<lambda>l. fire drv l s) (labels s)"

subsection \<open>Notions the theorems use\<close>

text \<open>
  A channel field is usable when it is not nil and refers to a channel of the heap
  that is not closed.
\<close>

definition chan_valid :: "chans \<Rightarrow> chan option \<Rightarrow> bool" where
  "chan_valid h co = (case co of None \<Rightarrow> False | Some c \<Rightarrow> c < length h \<and> \<not> h ! c)"

text \<open>
  The context as every constructor leaves it: two distinct open channels for tasks
  and results, and a termination channel that is nil or not closed.
\<close>

definition live :: "Ctx \<Rightarrow> chans \<Rightarrow> bool" where
  "live c h =
     (chan_valid h (work c) \<and> chan_valid h (errChan c) \<and> work c \<noteq> errChan c \<and>
      (case doneChan c of None \<Rightarrow> True | Some d \<Rightarrow> \<not> is_closed h d))"

text \<open>
  An executor whose run loop has passed activation and waits in its select, with one
  goroutine inside \<^verbatim>\<open>Do\<close> for each closure of the list.
\<close>

definition running :: "Ctx \<Rightarrow> chans \<Rightarrow> 'w \<Rightarrow> 'w closure list \<Rightarrow> 'w config" where
  "running c h w fns =
     (submit (map Some fns) (idle c h w))\<lparr>runner := Some (RunSelect (work c) (doneChan c))\<rparr>"

text \<open>Whether a constructor call left a run-loop goroutine behind.\<close>

definition spawned :: "'w config outcome \<Rightarrow> bool" where
  "spawned r = (case r of Panic p \<Rightarrow> False | Returned s \<Rightarrow> runner s \<noteq> None)"

text \<open>Whether the run loop is inside its serving loop.\<close>

definition serving :: "'w runloop option \<Rightarrow> bool" where
  "serving r =
     (case r of
        Some (RunSelect wc dc) \<Rightarrow> True
      | Some (RunCall k f) \<Rightarrow> True
      | Some (RunPush k c e) \<Rightarrow> True
      | _ \<Rightarrow> False)"



text \<open>The tasks received, invoked and answered, in the order of the trace.\<close>

definition received :: "'w event list \<Rightarrow> nat list" where
  "received t = List.map_filter (\<lambda>x. case x of Received k \<Rightarrow> Some k | _ \<Rightarrow> None) t"

definition invoked :: "'w event list \<Rightarrow> nat list" where
  "invoked t = List.map_filter (\<lambda>x. case x of Invoked k w e \<Rightarrow> Some k | _ \<Rightarrow> None) t"

definition delivered :: "'w event list \<Rightarrow> nat list" where
  "delivered t = List.map_filter (\<lambda>x. case x of Delivered k j e \<Rightarrow> Some k | _ \<Rightarrow> None) t"

text \<open>
  A trace is serial when it is a sequence of rounds, each a task received, then that
  task invoked, then its result delivered to the caller that sent the task, with at
  most the last round unfinished. The automaton reads a trace from the left; \<open>None\<close>
  is the failure state.
\<close>

datatype phase = Idle | Got nat | Ran nat goerror

fun track :: "phase option \<Rightarrow> 'w event \<Rightarrow> phase option" where
  "track (Some Idle) (Received k) = Some (Got k)"
| "track (Some (Got k)) (Invoked k' w e) = (if k' = k then Some (Ran k e) else None)"
| "track (Some (Ran k e)) (Delivered k' j e') =
     (if k' = k \<and> j = k \<and> e' = e then Some Idle else None)"
| "track _ _ = None"

definition serial :: "'w event list \<Rightarrow> bool" where
  "serial t = (foldl track (Some Idle) t \<noteq> None)"

text \<open>Running the closures of the given callers one after the other.\<close>

definition replay :: "'w closure list \<Rightarrow> nat list \<Rightarrow> 'w \<Rightarrow> 'w" where
  "replay fns ks w = fold (\<lambda>k v. snd ((fns ! k) v)) ks w"

text \<open>
  Where \<^verbatim>\<open>Run(ec)\<close> can be once \<^verbatim>\<open>SetCurrentContext\<close> fails with \<open>e\<close>: at its
  entry, at the send of \<open>e\<close> on \<open>ec\<close>, or returned; returned with \<open>e\<close> when
  \<open>ec\<close> is nil, and with nil once the constructor has received \<open>e\<close> and panicked
  with it.
\<close>

definition failpath :: "chan option \<Rightarrow> string \<Rightarrow> 'w config \<Rightarrow> bool" where
  "failpath ec e s =
     (case ec of
        None \<Rightarrow> runner s = Some (RunStart None) \<or> runner s = Some (RunReturned (Some e))
      | Some c \<Rightarrow>
          runner s = Some (RunStart (Some c)) \<or> runner s = Some (RunReport c e) \<or>
          (runner s = Some (RunReturned None) \<and> crashed s = Some (PanicError e)))"

text \<open>
  The invariant of a serving executor. \<open>phase_of\<close> is where the loop stands in
  its round and \<open>inflight\<close> the caller whose task it holds. \<open>produced\<close> says that
  \<open>e\<close> is what the closure of caller \<open>k\<close> returned when the loop invoked it.
  \<open>runner_ok\<close> and \<open>caller_ok\<close> tie each program counter to the trace: a caller at
  its send has not been received, a caller at its receive is the one in flight, a
  caller that has returned holds what its own closure produced. \<open>in_step\<close> relates
  the three projections of the trace in each phase.
\<close>

definition phase_of :: "'w runloop option \<Rightarrow> phase option" where
  "phase_of r =
     (case r of
        Some (RunSelect wc dc) \<Rightarrow> Some Idle
      | Some (RunCall k f) \<Rightarrow> Some (Got k)
      | Some (RunPush k c e) \<Rightarrow> Some (Ran k e)
      | _ \<Rightarrow> None)"

definition inflight :: "'w runloop option \<Rightarrow> nat option" where
  "inflight r =
     (case r of
        Some (RunCall k f) \<Rightarrow> Some k
      | Some (RunPush k c e) \<Rightarrow> Some k
      | _ \<Rightarrow> None)"

definition produced :: "'w closure list \<Rightarrow> 'w event list \<Rightarrow> nat \<Rightarrow> goerror \<Rightarrow> bool" where
  "produced fns t k e = (\<exists>w. Invoked k w e \<in> set t \<and> e = fst ((fns ! k) w))"

definition runner_ok :: "Ctx \<Rightarrow> 'w closure list \<Rightarrow> 'w config \<Rightarrow> bool" where
  "runner_ok c fns s =
     (case runner s of
        Some (RunSelect wc dc) \<Rightarrow> wc = work c \<and> dc = doneChan c
      | Some (RunCall k f) \<Rightarrow>
          k < length fns \<and> f = Some (fns ! k) \<and> k \<in> set (received (trace s))
      | Some (RunPush k co e) \<Rightarrow>
          k < length fns \<and> co = errChan c \<and> k \<in> set (received (trace s)) \<and>
          produced fns (trace s) k e
      | _ \<Rightarrow> False)"

definition caller_ok :: "Ctx \<Rightarrow> 'w closure list \<Rightarrow> 'w config \<Rightarrow> nat \<Rightarrow> bool" where
  "caller_ok c fns s k =
     (case callers s ! k of
        DoSend co f \<Rightarrow>
          co = work c \<and> f = Some (fns ! k) \<and> k \<notin> set (received (trace s))
      | DoRecv co \<Rightarrow>
          co = errChan c \<and> inflight (runner s) = Some k
      | DoReturned e \<Rightarrow>
          inflight (runner s) \<noteq> Some k \<and> k \<in> set (received (trace s)) \<and>
          produced fns (trace s) k e)"

definition in_step :: "phase \<Rightarrow> 'w event list \<Rightarrow> bool" where
  "in_step p t =
     (case p of
        Idle \<Rightarrow> invoked t = received t \<and> delivered t = received t
      | Got k \<Rightarrow> received t = invoked t @ [k] \<and> delivered t = invoked t
      | Ran k e \<Rightarrow> invoked t = received t \<and> received t = delivered t @ [k])"

definition sinv :: "Ctx \<Rightarrow> chans \<Rightarrow> 'w \<Rightarrow> 'w closure list \<Rightarrow> 'w config \<Rightarrow> bool" where
  "sinv c h w fns s =
     (ctx s = c \<and> heap s = h \<and> crashed s = None \<and> ctor s = None \<and>
      length (callers s) = length fns \<and>
      runner_ok c fns s \<and>
      (\<forall>k<length fns. caller_ok c fns s k) \<and>
      foldl track (Some Idle) (trace s) = phase_of (runner s) \<and>
      (\<forall>p. phase_of (runner s) = Some p \<longrightarrow> in_step p (trace s)) \<and>
      distinct (received (trace s)) \<and> set (received (trace s)) \<subseteq> {..<length fns} \<and>
      world s = replay fns (invoked (trace s)) w \<and>
      length (trace s) =
        length (received (trace s)) + length (invoked (trace s)) + length (delivered (trace s)))"

subsection \<open>Example inputs\<close>

text \<open>A driver on which every call succeeds; context creation yields handle 1.\<close>

definition driver_ok :: driver where
  "driver_ok =
     \<lparr>cuCtxCreate = (\<lambda>fl d. (None, 1)), SetCurrentContext = (\<lambda>c. None),
      cuCtxDestroy = (\<lambda>c. None)\<rparr>"

text \<open>A driver that rejects every device and flag combination.\<close>

definition driver_reject :: driver where
  "driver_reject =
     \<lparr>cuCtxCreate = (\<lambda>fl d. (Some ''CUDA_ERROR_INVALID_DEVICE'', 0)),
      SetCurrentContext = (\<lambda>c. None), cuCtxDestroy = (\<lambda>c. None)\<rparr>"

text \<open>A driver on which making a context current fails.\<close>

definition driver_nocurrent :: driver where
  "driver_nocurrent =
     \<lparr>cuCtxCreate = (\<lambda>fl d. (None, 1)),
      SetCurrentContext = (\<lambda>c. Some ''CUDA_ERROR_INVALID_CONTEXT''),
      cuCtxDestroy = (\<lambda>c. None)\<rparr>"

text \<open>The context \<^verbatim>\<open>newContext\<close> builds around handle 1 on an empty heap.\<close>

definition ctx1 :: Ctx where
  "ctx1 =
     \<lparr>CUContext = 1, work = Some 0, errChan = Some 1, doneChan = None, err = None,
      device = 0, flags = 0, locked = False, doneClosed = False\<rparr>"

text \<open>The same context after \<^verbatim>\<open>Close\<close>.\<close>

definition ctx1_closed :: Ctx where
  "ctx1_closed =
     \<lparr>CUContext = 0, work = None, errChan = None, doneChan = None, err = None,
      device = 0, flags = 0, locked = False, doneClosed = False\<rparr>"

text \<open>
  Closures over a shared log: each appends its identifier; the second one also fails.
\<close>

definition log_ok :: "nat \<Rightarrow> nat list closure" where
  "log_ok i = (\<lambda>l. (None, l @ [i]))"

definition log_fail :: "nat \<Rightarrow> nat list closure" where
  "log_fail i = (\<lambda>l. (Some ''X'', l @ [i]))"

text \<open>
  The configuration \<^verbatim>\<open>NewContext\<close> reaches on \<open>driver_nocurrent\<close>: the run loop
  entered on completion channel 2, and the constructor waiting on that channel.
\<close>

definition failing_start :: "unit config" where
  "failing_start =
     \<lparr>ctx = ctx1, heap = [False, False, False], world = (),
      runner = Some (RunStart (Some 2)), callers = [], ctor = Some (CtorWait 2),
      trace = [], crashed = None\<rparr>"

text \<open>
  The configuration reached from two callers, with closures \<open>log_ok 0\<close> and
  \<open>log_fail 1\<close> on an empty log, when the loop takes the task of caller 1 first.
\<close>

definition served :: "nat list config" where
  "served =
     \<lparr>ctx = ctx1, heap = [False, False], world = [1, 0],
      runner = Some (RunSelect (Some 0) None),
      callers = [DoReturned None, DoReturned (Some ''X'')], ctor = None,
      trace = [Received 1, Invoked 1 [] (Some ''X''), Delivered 1 1 (Some ''X''),
               Received 0, Invoked 0 [1] None, Delivered 0 0 None],
      crashed = None\<rparr>"

subsection \<open>Theorems: \<^verbatim>\<open>Close\<close>\<close>

lemma close_field_Inr:
  "close_field co h = Inr (h', t) \<Longrightarrow> destroys t = 0"
  by (auto simp: close_field_def destroys_def split: option.splits sum.splits)

text \<open>
  Claim C5. Close is idempotent: a Close on an executor that an earlier Close has
  already closed is a no-op that returns nil; it changes neither the context nor a
  channel and has no effect at all, so the native destroy call is not made a second
  time. Over both calls the handle is destroyed at most once.
\<close>

theorem Close_idempotent:
  assumes "Close drv c h = Returned (r, c', h', t)"
  shows "Close drv c' h' = Returned (None, c', h', []) \<and> destroys t \<le> 1"
proof (cases "CUContext c = emptyCUcontext")
  case True
  with assms show ?thesis
    by (auto simp: Close_def destroys_def)
next
  case False
  with assms obtain h1 t1 h2 t2 where
    f1: "close_field (errChan c) h = Inr (h1, t1)" and
    f2: "close_field (work c) h1 = Inr (h2, t2)" and
    c': "c' = c\<lparr>errChan := None, work := None, CUContext := emptyCUcontext\<rparr>" and
    t: "t = t1 @ t2 @ [NativeDestroy (CUContext c), HandleReleased]"
    by (auto simp: Close_def split: sum.splits)
  have "destroys t1 = 0" "destroys t2 = 0"
    using f1 f2 by (auto dest: close_field_Inr)
  then have "destroys t = 1"
    by (simp add: t destroys_def)
  moreover have "Close drv c' h' = Returned (None, c', h', [])"
    by (simp add: c' Close_def)
  ultimately show ?thesis by simp
qed

theorem Close_idempotent_witness:
  "Close driver_ok ctx1 [False, False] =
     Returned (None, ctx1_closed, [True, True],
               [ChanClosed 1, ChanClosed 0, NativeDestroy 1, HandleReleased]) \<and>
   Close driver_ok ctx1_closed [True, True] =
     Returned (None, ctx1_closed, [True, True], []) \<and>
   destroys [ChanClosed 1, ChanClosed 0, NativeDestroy 1, HandleReleased] \<le> 1"
proof -
  have first: "Close driver_ok ctx1 [False, False] =
     Returned (None, ctx1_closed, [True, True],
               [ChanClosed 1, ChanClosed 0, NativeDestroy 1, HandleReleased])"
    by (simp add: Close_def ctx1_def ctx1_closed_def driver_ok_def close_field_def
        close_chan_def is_closed_def emptyCUcontext_def)
  from Close_idempotent [OF first] first show ?thesis by simp
qed

subsection \<open>Lemmas: constructors and transitions\<close>

lemmas move_defs = activate_def report_def report_closed_def ready_def accept_def
  accept_closed_def stop_def call_def push_def push_closed_def send_closed_def recv_closed_def

lemma newContext_eq:
  "newContext cu h =
     (\<lparr>CUContext = cu, work = Some (length h), errChan = Some (Suc (length h)),
       doneChan = None, err = None, device = 0, flags = 0, locked = False,
       doneClosed = False\<rparr>, h @ [False, False])"
  by (simp add: newContext_def make_chan_def)

lemma manual_live:
  "NewManuallyManagedContext drv d fl h = Returned (c, h') \<Longrightarrow> live c h'"
  by (auto simp: NewManuallyManagedContext_def newContext_eq live_def chan_valid_def
      is_closed_def nth_append split: prod.splits option.splits)

lemma adopt_live: "CtxFromCUContext d cu fl h = (c, h') \<Longrightarrow> live c h'"
  by (auto simp: CtxFromCUContext_def newContext_eq live_def chan_valid_def
      is_closed_def nth_append)

lemma fire_ctx: "fire drv l s = Some s' \<Longrightarrow> ctx s' = ctx s"
  by (cases l)
     (auto simp: fire_def move_defs split: if_splits option.splits runloop.splits
        ctor.splits caller.splits sum.splits prod.splits)

lemma fire_callers_length:
  "fire drv l s = Some s' \<Longrightarrow> length (callers s') = length (callers s)"
  by (cases l)
     (auto simp: fire_def move_defs split: if_splits option.splits runloop.splits
        ctor.splits caller.splits sum.splits prod.splits)

lemma steps_Nil: "(\<And>l. fire drv l s = None) \<Longrightarrow> steps drv s = []"
  by (simp add: steps_def List.map_filter_def)

lemma exec_stuck:
  "(\<And>l. fire drv l s = None) \<Longrightarrow> exec drv sched s = Some s' \<Longrightarrow> sched = [] \<and> s' = s"
  by (cases sched) auto

text \<open>
  With no run loop and no constructor waiting, nothing moves while every caller is at
  a send on a channel that is nil or open: a send needs a receiver.
\<close>

lemma unstarted_stuck:
  assumes "runner s = None" "ctor s = None"
    and "\<forall>k<length (callers s). \<exists>fn. callers s ! k = DoSend co fn"
    and "\<forall>c. co = Some c \<longrightarrow> \<not> is_closed (heap s) c"
  shows "fire drv l s = None"
  using assms
  by (cases l) (auto simp: fire_def move_defs split: if_splits option.splits caller.splits)

text \<open>A caller at a send on the nil channel stays there, whatever else happens.\<close>

lemma nil_send_blocked:
  assumes "n < length (callers s)" "callers s ! n = DoSend None fn" "fire drv l s = Some s'"
  shows "n < length (callers s') \<and> callers s' ! n = DoSend None fn"
  using assms
  by (cases l)
     (auto simp: fire_def move_defs nth_list_update split: if_splits option.splits
        runloop.splits ctor.splits caller.splits sum.splits prod.splits)

lemma nil_send_blocked_exec:
  assumes "exec drv sched s = Some s'" "n < length (callers s)"
    "callers s ! n = DoSend None fn"
  shows "n < length (callers s') \<and> callers s' ! n = DoSend None fn"
  using assms
proof (induction sched arbitrary: s)
  case Nil
  then show ?case by simp
next
  case (Cons l ls)
  from Cons.prems(1) obtain s1 where
    f: "fire drv l s = Some s1" and e: "exec drv ls s1 = Some s'"
    by (auto split: option.splits)
  from nil_send_blocked [OF Cons.prems(2,3) f] Cons.IH [OF e] show ?case by blast
qed

lemma Close_nils:
  assumes "CUContext c \<noteq> emptyCUcontext" "Close drv c h = Returned (r, c', h', t)"
  shows "work c' = None \<and> errChan c' = None \<and> CUContext c' = emptyCUcontext"
  using assms by (auto simp: Close_def split: sum.splits)

subsection \<open>Theorems: \<^verbatim>\<open>Do\<close> without a run loop\<close>

text \<open>
  Claim C10. On an executor from the manual constructor or from adopting a handle, a
  call of Do made before any run loop has been invoked does not return: with any
  number of goroutines inside Do and no run loop, no transition exists at all, so
  the only schedule is the empty one and every caller stays at its send on the task
  channel.
\<close>

theorem Do_before_Run_blocks:
  assumes "NewManuallyManagedContext drv d fl h = Returned (c, h') \<or>
           CtxFromCUContext d cu fl h = (c, h')"
    and "exec drv sched (submit fns (idle c h' w)) = Some s"
  shows "sched = [] \<and> s = submit fns (idle c h' w) \<and> steps drv s = [] \<and>
         (\<forall>k<length fns. callers s ! k = DoSend (work c) (fns ! k))"
proof -
  let ?s0 = "submit fns (idle c h' w)"
  have lv: "live c h'" using assms(1) manual_live adopt_live by blast
  have stuck: "fire drv l ?s0 = None" for l
  proof (rule unstarted_stuck [where co = "work c"])
    show "\<forall>c'. work c = Some c' \<longrightarrow> \<not> is_closed (heap ?s0) c'"
      using lv by (auto simp: live_def chan_valid_def is_closed_def submit_def idle_def)
  qed (auto simp: submit_def idle_def Do_def)
  from exec_stuck [OF stuck assms(2)] have "sched = []" "s = ?s0" by auto
  moreover have "steps drv ?s0 = []" using stuck by (rule steps_Nil)
  moreover have "\<forall>k<length fns. callers ?s0 ! k = DoSend (work c) (fns ! k)"
    by (simp add: submit_def idle_def Do_def)
  ultimately show ?thesis by simp
qed

theorem Do_before_Run_blocks_witness:
  "NewManuallyManagedContext driver_ok 0 0 [] = Returned (ctx1, [False, False]) \<and>
   exec driver_ok [] (submit [Some (log_ok 0)] (idle ctx1 [False, False] [])) =
     Some (submit [Some (log_ok 0)] (idle ctx1 [False, False] [])) \<and>
   steps driver_ok (submit [Some (log_ok 0)] (idle ctx1 [False, False] [])) = [] \<and>
   callers (submit [Some (log_ok 0)] (idle ctx1 [False, False] [])) ! 0 =
     DoSend (Some 0) (Some (log_ok 0))"
proof -
  have a: "NewManuallyManagedContext driver_ok 0 0 [] = Returned (ctx1, [False, False])"
    by (simp add: NewManuallyManagedContext_def driver_ok_def newContext_eq ctx1_def)
  have b: "exec driver_ok [] (submit [Some (log_ok 0)] (idle ctx1 [False, False] [])) =
     Some (submit [Some (log_ok 0)] (idle ctx1 [False, False] []))"
    by simp
  from Do_before_Run_blocks [OF disjI1 [OF a] b] a b show ?thesis
    by (simp add: ctx1_def)
qed

subsection \<open>Theorems: \<^verbatim>\<open>Do\<close> after \<^verbatim>\<open>Close\<close>\<close>

text \<open>
  Claim C3, as amended. After Close has completed on an executor whose handle was
  not empty, the task channel field is nil, and a Do called afterwards never returns,
  with an error or without: in every schedule its goroutine stays at the send on the
  nil channel.
\<close>

theorem Do_after_Close_blocks:
  assumes "CUContext (ctx s) \<noteq> emptyCUcontext"
    and "Close_in drv s = Returned (r, s1)"
    and "exec drv sched (submit [fn] s1) = Some s'"
  shows "work (ctx s1) = None \<and> callers s' ! length (callers s) = DoSend None fn \<and>
         (\<forall>e. callers s' ! length (callers s) \<noteq> DoReturned e)"
proof -
  from assms(2) obtain c' h' t where
    cl: "Close drv (ctx s) (heap s) = Returned (r, c', h', t)" and
    s1: "s1 = s\<lparr>ctx := c', heap := h'\<rparr>"
    by (auto simp: Close_in_def split: outcome.splits)
  from Close_nils [OF assms(1) cl] have w: "work (ctx s1) = None" by (simp add: s1)
  let ?n = "length (callers s)"
  have "?n < length (callers (submit [fn] s1))"
    "callers (submit [fn] s1) ! ?n = DoSend None fn"
    using w by (simp_all add: submit_def s1 Do_def)
  from nil_send_blocked_exec [OF assms(3) this] w show ?thesis by simp
qed

theorem Do_after_Close_blocks_witness:
  "CUContext (ctx (running ctx1 [False, False] ([]::nat list) [])) \<noteq> emptyCUcontext \<and>
   Close_in driver_ok (running ctx1 [False, False] ([]::nat list) []) =
     Returned (None, (running ctx1 [False, False] [] [])\<lparr>ctx := ctx1_closed, heap := [True, True]\<rparr>) \<and>
   exec driver_ok [AcceptClosed] (submit [Some (log_ok 7)]
       ((running ctx1 [False, False] ([]::nat list) [])\<lparr>ctx := ctx1_closed, heap := [True, True]\<rparr>)) =
   Some ((submit [Some (log_ok 7)]
       ((running ctx1 [False, False] ([]::nat list) [])\<lparr>ctx := ctx1_closed, heap := [True, True]\<rparr>))
         \<lparr>crashed := Some NilDereference\<rparr>) \<and>
   work ctx1_closed = None \<and> 
   callers ((submit [Some (log_ok 7)]
       ((running ctx1 [False, False] ([]::nat list) [])\<lparr>ctx := ctx1_closed, heap := [True, True]\<rparr>))
         \<lparr>crashed := Some NilDereference\<rparr>) ! 0
      = DoSend None (Some (log_ok 7))"
proof -
  let ?s = "running ctx1 [False, False] ([]::nat list) []"
  let ?s1 = "?s\<lparr>ctx := ctx1_closed, heap := [True, True]\<rparr>"
  have a: "CUContext (ctx ?s) \<noteq> emptyCUcontext"
    by (simp add: running_def submit_def idle_def ctx1_def emptyCUcontext_def)
  have b: "Close_in driver_ok ?s = Returned (None, ?s1)"
    by (simp add: Close_in_def Close_def ctx1_def ctx1_closed_def driver_ok_def close_field_def
        close_chan_def is_closed_def emptyCUcontext_def running_def submit_def idle_def)
  have c: "exec driver_ok [AcceptClosed] (submit [Some (log_ok 7)] ?s1) =
       Some ((submit [Some (log_ok 7)] ?s1)\<lparr>crashed := Some NilDereference\<rparr>)"
    by (simp add: fire_def accept_closed_def running_def submit_def idle_def ctx1_def is_closed_def)
  from Do_after_Close_blocks [OF a b c] a b c show ?thesis
    by (simp add: running_def submit_def idle_def)
qed

text \<open>
  Claim C3 as stated fails. On a running executor with handle 1, Close returns nil
  and leaves both channel fields nil and both channels closed. A Do called afterwards
  is at a send on the nil channel. The only thing the program can then do is panic:
  the run loop, blocked in its select on the task channel that Close closed, receives
  a nil function and calls it. After that nothing moves. Do has returned nothing, and
  no error value for a closed executor exists.
\<close>

theorem Do_after_Close_counterexample:
  "Close_in driver_ok (running ctx1 [False, False] ([]::nat list) []) =
     Returned (None, (running ctx1 [False, False] [] [])\<lparr>ctx := ctx1_closed, heap := [True, True]\<rparr>) \<and>
   callers (submit [Some (log_ok 7)]
       ((running ctx1 [False, False] ([]::nat list) [])\<lparr>ctx := ctx1_closed, heap := [True, True]\<rparr>)) =
     [DoSend None (Some (log_ok 7))] \<and>
   steps driver_ok (submit [Some (log_ok 7)]
       ((running ctx1 [False, False] ([]::nat list) [])\<lparr>ctx := ctx1_closed, heap := [True, True]\<rparr>)) =
     [(submit [Some (log_ok 7)]
       ((running ctx1 [False, False] ([]::nat list) [])\<lparr>ctx := ctx1_closed, heap := [True, True]\<rparr>))
         \<lparr>crashed := Some NilDereference\<rparr>] \<and>
   steps driver_ok ((submit [Some (log_ok 7)]
       ((running ctx1 [False, False] ([]::nat list) [])\<lparr>ctx := ctx1_closed, heap := [True, True]\<rparr>))
         \<lparr>crashed := Some NilDereference\<rparr>) = []"
  by (simp add: Close_in_def Close_def ctx1_def ctx1_closed_def driver_ok_def close_field_def
        close_chan_def is_closed_def emptyCUcontext_def running_def submit_def idle_def
        steps_def labels_def List.map_filter_simps fire_def move_defs Do_def)

subsection \<open>Theorems: the constructors\<close>

text \<open>
  Claim C8, as amended. Constructing an auto-run executor with a device and flag
  combination that the native create-context call rejects panics with the native
  error: the constructor returns nothing to its caller. The panic comes before
  the context is built and before the run loop is started, so no run-loop goroutine is
  left behind.
\<close>

theorem NewContext_rejected_panics:
  assumes "cuCtxCreate drv fl d = (Some e, cctx)"
  shows "NewContext drv d fl h w = Panic (PanicError e) \<and> \<not> spawned (NewContext drv d fl h w)"
  using assms by (simp add: NewContext_def spawned_def)

theorem NewContext_rejected_panics_witness:
  "cuCtxCreate driver_reject 0 0 = (Some ''CUDA_ERROR_INVALID_DEVICE'', 0) \<and>
   NewContext driver_reject 0 0 [] () = Panic (PanicError ''CUDA_ERROR_INVALID_DEVICE'') \<and>
   \<not> spawned (NewContext driver_reject 0 0 [] ())"
proof -
  have a: "cuCtxCreate driver_reject 0 0 = (Some ''CUDA_ERROR_INVALID_DEVICE'', 0)"
    by (simp add: driver_reject_def)
  from NewContext_rejected_panics [OF a, of "[]" "()"] a show ?thesis by (simp add: spawned_def)
qed

text \<open>
  Claim C8 as stated fails: on a driver that rejects the device, the outcome of the
  constructor is a panic, not a value returned to the caller.
\<close>

theorem NewContext_rejected_counterexample:
  "NewContext driver_reject 0 0 [] () = Panic (PanicError ''CUDA_ERROR_INVALID_DEVICE'')"
  by (simp add: NewContext_def driver_reject_def)






subsection \<open>Theorems: activation in \<^verbatim>\<open>Run\<close>\<close>

lemma failpath_fire:
  assumes "failpath ec e s" "SetCurrentContext drv (CUContext (ctx s)) = Some e"
    "fire drv l s = Some s'"
  shows "failpath ec e s'"
  using assms
  by (cases l)
     (auto simp: failpath_def fire_def move_defs split: if_splits option.splits
        runloop.splits ctor.splits caller.splits sum.splits prod.splits)

lemma failpath_exec:
  assumes "exec drv sched s = Some s'" "failpath ec e s"
    "SetCurrentContext drv (CUContext (ctx s)) = Some e"
  shows "failpath ec e s'"
  using assms
proof (induction sched arbitrary: s)
  case Nil
  then show ?case by simp
next
  case (Cons l ls)
  from Cons.prems(1) obtain s1 where
    f: "fire drv l s = Some s1" and e: "exec drv ls s1 = Some s'"
    by (auto split: option.splits)
  have "failpath ec e s1" using failpath_fire [OF Cons.prems(2,3) f] .
  moreover have "SetCurrentContext drv (CUContext (ctx s1)) = Some e"
    using fire_ctx [OF f] Cons.prems(3) by simp
  ultimately show ?case using Cons.IH [OF e] by blast
qed

text \<open>
  Claim C7. When making the context current fails with error \<open>e\<close>, the first
  transition of Run takes it to the send of \<open>e\<close> on the completion channel when
  one was supplied, and to its return of \<open>e\<close> when none was. In no later
  configuration is Run inside the serving loop. When Run has returned, it has
  returned \<open>e\<close> itself if no channel was supplied; otherwise it has returned nil and
  the receiver on the completion channel, the constructor, has got \<open>e\<close> and
  panicked with it.
\<close>

theorem Run_activation_failure:
  assumes "runner s = Some (RunStart ec)" and "crashed s = None"
    and "SetCurrentContext drv (CUContext (ctx s)) = Some e"
    and "exec drv sched s = Some s'"
  shows "fire drv Activate s =
           Some (s\<lparr>runner := Some (case ec of Some c \<Rightarrow> RunReport c e
                                      | None \<Rightarrow> RunReturned (Some e))\<rparr>) \<and>
         \<not> serving (runner s') \<and>
         (\<forall>r. runner s' = Some (RunReturned r) \<longrightarrow>
            (case ec of None \<Rightarrow> r = Some e
             | Some c \<Rightarrow> r = None \<and> crashed s' = Some (PanicError e)))"
proof -
  have "failpath ec e s" using assms(1) by (simp add: failpath_def split: option.splits)
  from failpath_exec [OF assms(4) this assms(3)] have fp: "failpath ec e s'" .
  have "fire drv Activate s =
           Some (s\<lparr>runner := Some (case ec of Some c \<Rightarrow> RunReport c e
                                      | None \<Rightarrow> RunReturned (Some e))\<rparr>)"
    using assms(1,2,3) by (simp add: fire_def activate_def split: option.splits)
  moreover have "\<not> serving (runner s')"
    using fp by (auto simp: failpath_def serving_def split: option.splits)
  moreover have "\<forall>r. runner s' = Some (RunReturned r) \<longrightarrow>
            (case ec of None \<Rightarrow> r = Some e
             | Some c \<Rightarrow> r = None \<and> crashed s' = Some (PanicError e))"
    using fp by (auto simp: failpath_def split: option.splits)
  ultimately show ?thesis by blast
qed

theorem Run_activation_failure_witness:
  "NewContext driver_nocurrent 0 0 [] () = Returned failing_start \<and>
   SetCurrentContext driver_nocurrent (CUContext (ctx failing_start)) =
     Some ''CUDA_ERROR_INVALID_CONTEXT'' \<and>
   fire driver_nocurrent Activate failing_start =
     Some (failing_start\<lparr>runner := Some (RunReport 2 ''CUDA_ERROR_INVALID_CONTEXT'')\<rparr>) \<and>
   exec driver_nocurrent [Activate, Report] failing_start =
     Some (failing_start\<lparr>runner := Some (RunReturned None),
             crashed := Some (PanicError ''CUDA_ERROR_INVALID_CONTEXT'')\<rparr>) \<and>
   \<not> serving (runner (failing_start\<lparr>runner := Some (RunReturned None),
             crashed := Some (PanicError ''CUDA_ERROR_INVALID_CONTEXT'')\<rparr>))"
proof -
  let ?e = "''CUDA_ERROR_INVALID_CONTEXT''"
  let ?s' = "failing_start\<lparr>runner := Some (RunReturned None), crashed := Some (PanicError ?e)\<rparr>"
  have n: "NewContext driver_nocurrent 0 0 [] () = Returned failing_start"
    by (simp add: NewContext_def driver_nocurrent_def newContext_eq make_chan_def go_Run_def
        idle_def failing_start_def ctx1_def)
  have a: "runner failing_start = Some (RunStart (Some 2))" by (simp add: failing_start_def)
  have b: "crashed failing_start = None" by (simp add: failing_start_def)
  have c: "SetCurrentContext driver_nocurrent (CUContext (ctx failing_start)) = Some ?e"
    by (simp add: driver_nocurrent_def)
  have d: "exec driver_nocurrent [Activate, Report] failing_start = Some ?s'"
    by (simp add: fire_def activate_def report_def failing_start_def driver_nocurrent_def
        is_closed_def)
  from Run_activation_failure [OF a b c d] have
    f: "fire driver_nocurrent Activate failing_start =
          Some (failing_start\<lparr>runner := Some (RunReport 2 ?e)\<rparr>)" and
    g: "\<not> serving (runner ?s')"
    by simp_all
  from n c f d g show ?thesis by blast
qed

text \<open>
  Claim C6 fails on the code. \<^verbatim>\<open>Run\<close> calls \<^verbatim>\<open>close(errChan)\<close> after a successful
  activation without testing \<^verbatim>\<open>errChan\<close> for nil, although its documentation shows
  \<^verbatim>\<open>ctx.Run(nil)\<close> as a supported mode and its failure branch does test for nil. On
  the executor of the manual constructor, \<^verbatim>\<open>Run(nil)\<close> with every native call
  succeeding has one transition, the panic of closing a nil channel, after which
  nothing moves: the loop is never entered.
\<close>

theorem Run_nil_panics:
  "NewManuallyManagedContext driver_ok 0 0 [] = Returned (ctx1, [False, False]) \<and>
   fire driver_ok Activate (go_Run None (idle ctx1 [False, False] ())) =
     Some ((go_Run None (idle ctx1 [False, False] ()))\<lparr>crashed := Some CloseOfNilChannel\<rparr>) \<and>
   steps driver_ok (go_Run None (idle ctx1 [False, False] ())) =
     [(go_Run None (idle ctx1 [False, False] ()))\<lparr>crashed := Some CloseOfNilChannel\<rparr>] \<and>
   steps driver_ok ((go_Run None (idle ctx1 [False, False] ()))\<lparr>crashed := Some CloseOfNilChannel\<rparr>) = []"
  by (simp add: NewManuallyManagedContext_def driver_ok_def newContext_eq ctx1_def
      fire_def move_defs go_Run_def idle_def close_chan_def steps_def labels_def
      List.map_filter_simps)

subsection \<open>Theorems: what \<^verbatim>\<open>Close\<close> does to a run loop\<close>

text \<open>
  Claim C4 fails on the code. The effects of \<^verbatim>\<open>Close\<close> are, in order: the result
  channel closed, the task channel closed, the native destroy call, the handle
  released. No effect signals the run loop: the termination channel is nil before and
  after, the loop's case on it cannot fire, and the one thing a run loop waiting in
  its select can do after \<^verbatim>\<open>Close\<close> is to panic on the nil function it receives from
  the closed task channel.
\<close>

theorem Close_never_signals_done:
  "Close driver_ok ctx1 [False, False] =
     Returned (None, ctx1_closed, [True, True],
               [ChanClosed 1, ChanClosed 0, NativeDestroy 1, HandleReleased]) \<and>
   doneChan ctx1 = None \<and> doneChan ctx1_closed = None \<and>
   Close_in driver_ok (running ctx1 [False, False] () []) =
     Returned (None, (running ctx1 [False, False] () [])\<lparr>ctx := ctx1_closed, heap := [True, True]\<rparr>) \<and>
   fire driver_ok Stop ((running ctx1 [False, False] () [])\<lparr>ctx := ctx1_closed, heap := [True, True]\<rparr>)
     = None \<and>
   steps driver_ok ((running ctx1 [False, False] () [])\<lparr>ctx := ctx1_closed, heap := [True, True]\<rparr>) =
     [(running ctx1 [False, False] () [])\<lparr>ctx := ctx1_closed, heap := [True, True],
         crashed := Some NilDereference\<rparr>]"
  by (simp add: Close_in_def Close_def ctx1_def ctx1_closed_def driver_ok_def close_field_def
        close_chan_def is_closed_def emptyCUcontext_def running_def submit_def idle_def
        steps_def labels_def List.map_filter_simps fire_def move_defs)

subsection \<open>Lemmas: the serving loop\<close>

lemma received_snoc [simp]:
  "received (t @ [Received k]) = received t @ [k]"
  "received (t @ [Invoked k w e]) = received t"
  "received (t @ [Delivered k j e]) = received t"
  by (simp_all add: received_def List.map_filter_def)

lemma invoked_snoc [simp]:
  "invoked (t @ [Received k]) = invoked t"
  "invoked (t @ [Invoked k w e]) = invoked t @ [k]"
  "invoked (t @ [Delivered k j e]) = invoked t"
  by (simp_all add: invoked_def List.map_filter_def)

lemma delivered_snoc [simp]:
  "delivered (t @ [Received k]) = delivered t"
  "delivered (t @ [Invoked k w e]) = delivered t"
  "delivered (t @ [Delivered k j e]) = delivered t @ [k]"
  by (simp_all add: delivered_def List.map_filter_def)

lemma trace_Nil [simp]: "received [] = []" "invoked [] = []" "delivered [] = []"
  by (simp_all add: received_def invoked_def delivered_def List.map_filter_def)

lemma produced_snoc: "produced fns t k e \<Longrightarrow> produced fns (t @ [x]) k e"
  by (auto simp: produced_def)

lemma replay_snoc: "replay fns (ks @ [k]) w = snd ((fns ! k) (replay fns ks w))"
  by (simp add: replay_def)

lemma sinv_init:
  assumes "live c h"
  shows "sinv c h w fns (running c h w fns)"
  by (auto simp: sinv_def running_def submit_def idle_def runner_ok_def caller_ok_def
      phase_of_def in_step_def Do_def replay_def)

lemma sinv_accept:
  assumes "sinv c h w fns s" "live c h" "accept k s = Some s'"
  shows "sinv c h w fns s'"
proof -
  from assms(3) obtain wc dc f where
    r: "runner s = Some (RunSelect (Some wc) dc)" and
    k: "k < length (callers s)" and
    ck: "callers s ! k = DoSend (Some wc) f" and
    s': "s' = s\<lparr>runner := Some (RunCall k f),
                 callers := (callers s)[k := DoRecv (errChan (ctx s))],
                 trace := trace s @ [Received k]\<rparr>"
    by (auto simp: accept_def split: option.splits runloop.splits if_splits caller.splits)
  from assms(1) have kN: "k < length fns" using k by (simp add: sinv_def)
  from assms(1) kN have "caller_ok c fns s k" by (simp add: sinv_def)
  with ck have f: "f = Some (fns ! k)" and nk: "k \<notin> set (received (trace s))"
    by (simp_all add: caller_ok_def)
  have others: "caller_ok c fns s' j" if "j < length fns" for j
  proof (cases "j = k")
    case True
    then show ?thesis using k assms(1) by (simp add: caller_ok_def s' inflight_def sinv_def)
  next
    case False
    from assms(1) that have "caller_ok c fns s j" by (simp add: sinv_def)
    with False r show ?thesis
      by (auto simp: caller_ok_def s' inflight_def produced_snoc split: caller.splits)
  qed
  from assms(1) r have ph: "foldl track (Some Idle) (trace s) = Some Idle"
    and st: "in_step Idle (trace s)"
    by (simp_all add: sinv_def phase_of_def)
  show ?thesis
    using assms(1) others kN f nk ph st r
    by (simp add: sinv_def s' runner_ok_def phase_of_def in_step_def)
qed

lemma sinv_call:
  assumes "sinv c h w fns s" "call s = Some s'"
  shows "sinv c h w fns s'"
proof -
  from assms(1) have rk: "runner_ok c fns s" by (simp add: sinv_def)
  from assms(2) rk obtain k where
    r: "runner s = Some (RunCall k (Some (fns ! k)))" and
    kN: "k < length fns" and kr: "k \<in> set (received (trace s))"
    by (auto simp: call_def runner_ok_def split: option.splits runloop.splits)
  define e where "e = fst ((fns ! k) (world s))"
  define w' where "w' = snd ((fns ! k) (world s))"
  from assms(2) r have
    s': "s' = s\<lparr>world := w', runner := Some (RunPush k (errChan (ctx s)) e),
                 trace := trace s @ [Invoked k (world s) e]\<rparr>"
    by (simp add: call_def e_def w'_def split: prod.splits)
  have pr: "produced fns (trace s') k e"
    by (auto simp: produced_def s' e_def)
  have others: "caller_ok c fns s' j" if "j < length fns" for j
  proof -
    from assms(1) that have "caller_ok c fns s j" by (simp add: sinv_def)
    with r show ?thesis
      by (auto simp: caller_ok_def s' inflight_def produced_snoc split: caller.splits)
  qed
  from assms(1) r have ph: "foldl track (Some Idle) (trace s) = Some (Got k)"
    and st: "in_step (Got k) (trace s)"
    by (simp_all add: sinv_def phase_of_def)
  have wd: "world s = replay fns (invoked (trace s)) w" using assms(1) by (simp add: sinv_def)
  show ?thesis
    using assms(1) others kN kr ph st pr r
    by (auto simp: sinv_def s' runner_ok_def phase_of_def in_step_def replay_snoc w'_def wd)
qed

lemma sinv_push:
  assumes "sinv c h w fns s" "push j s = Some s'"
  shows "sinv c h w fns s'"
proof -
  from assms(1) have rk: "runner_ok c fns s" by (simp add: sinv_def)
  from assms(2) obtain k ec e where
    r: "runner s = Some (RunPush k (Some ec) e)" and
    j: "j < length (callers s)" and
    cj: "callers s ! j = DoRecv (Some ec)" and
    s': "s' = s\<lparr>runner := Some (RunSelect (work (ctx s)) (doneChan (ctx s))),
                 callers := (callers s)[j := DoReturned e],
                 trace := trace s @ [Delivered k j e]\<rparr>"
    by (auto simp: push_def split: option.splits runloop.splits if_splits)
  from rk r have kN: "k < length fns" and kr: "k \<in> set (received (trace s))"
    and pr: "produced fns (trace s) k e"
    by (simp_all add: runner_ok_def)
  from assms(1) j have "caller_ok c fns s j" by (simp add: sinv_def)
  with cj r have jk: "j = k" by (simp add: caller_ok_def inflight_def)
  have others: "caller_ok c fns s' i" if "i < length fns" for i
  proof (cases "i = k")
    case True
    then show ?thesis using j jk kr pr
      by (simp add: caller_ok_def s' inflight_def produced_snoc)
  next
    case False
    from assms(1) that have "caller_ok c fns s i" by (simp add: sinv_def)
    with False r jk show ?thesis
      by (auto simp: caller_ok_def s' inflight_def produced_snoc split: caller.splits)
  qed
  from assms(1) r have ph: "foldl track (Some Idle) (trace s) = Some (Ran k e)"
    and st: "in_step (Ran k e) (trace s)"
    by (simp_all add: sinv_def phase_of_def)
  show ?thesis
    using assms(1) others ph st jk r
    by (auto simp: sinv_def s' runner_ok_def phase_of_def in_step_def)
qed

lemma sinv_fire:
  assumes "sinv c h w fns s" "live c h" "fire drv l s = Some s'"
  shows "sinv c h w fns s' \<and> length (trace s') = Suc (length (trace s))"
proof -
  have rk: "runner_ok c fns s" and ct: "ctor s = None" and cx: "ctx s = c" and hp: "heap s = h"
    and len: "length (callers s) = length fns"
    using assms(1) by (simp_all add: sinv_def)
  have co: "caller_ok c fns s k" if "k < length fns" for k
    using assms(1) that by (simp add: sinv_def)
  from assms(3) have m: "move drv l s = Some s'" by (simp add: fire_def split: if_splits)
  show ?thesis
  proof (cases l)
    case (Accept k)
    with m have a: "accept k s = Some s'" by simp
    then have "length (trace s') = Suc (length (trace s))"
      by (auto simp: accept_def split: option.splits runloop.splits if_splits caller.splits)
    with sinv_accept [OF assms(1,2) a] show ?thesis by simp
  next
    case Call
    with m have a: "call s = Some s'" by simp
    with rk have "length (trace s') = Suc (length (trace s))"
      by (auto simp: call_def runner_ok_def split: option.splits runloop.splits prod.splits)
    with sinv_call [OF assms(1) a] show ?thesis by simp
  next
    case (Push j)
    with m have a: "push j s = Some s'" by simp
    then have "length (trace s') = Suc (length (trace s))"
      by (auto simp: push_def split: option.splits runloop.splits if_splits)
    with sinv_push [OF assms(1) a] show ?thesis by simp
  next
    case Activate
    with m rk show ?thesis
      by (auto simp: activate_def runner_ok_def split: option.splits runloop.splits)
  next
    case Report
    with m rk show ?thesis
      by (auto simp: report_def runner_ok_def split: option.splits runloop.splits)
  next
    case ReportClosed
    with m rk show ?thesis
      by (auto simp: report_closed_def runner_ok_def split: option.splits runloop.splits)
  next
    case Ready
    with m ct show ?thesis by (simp add: ready_def)
  next
    case AcceptClosed
    with m rk assms(2) cx hp show ?thesis
      by (auto simp: accept_closed_def runner_ok_def live_def chan_valid_def is_closed_def
          split: option.splits runloop.splits if_splits)
  next
    case Stop
    with m rk assms(2) cx hp show ?thesis
      by (auto simp: stop_def runner_ok_def live_def
          split: option.splits runloop.splits if_splits)
  next
    case PushClosed
    with m rk assms(2) cx hp show ?thesis
      by (auto simp: push_closed_def runner_ok_def live_def chan_valid_def is_closed_def
          split: option.splits runloop.splits if_splits)
  next
    case (SendClosed k)
    with m have k: "k < length fns" using len by (simp add: send_closed_def split: if_splits)
    from co [OF k] m SendClosed assms(2) cx hp show ?thesis
      by (auto simp: send_closed_def caller_ok_def live_def chan_valid_def is_closed_def
          split: option.splits caller.splits if_splits)
  next
    case (RecvClosed k)
    with m have k: "k < length fns" using len by (simp add: recv_closed_def split: if_splits)
    from co [OF k] m RecvClosed assms(2) cx hp show ?thesis
      by (auto simp: recv_closed_def caller_ok_def live_def chan_valid_def is_closed_def
          split: option.splits caller.splits if_splits)
  qed
qed

lemma sinv_exec:
  assumes "exec drv sched s = Some s'" "sinv c h w fns s" "live c h"
  shows "sinv c h w fns s' \<and> length (trace s') = length (trace s) + length sched"
  using assms
proof (induction sched arbitrary: s)
  case Nil
  then show ?case by simp
next
  case (Cons l ls)
  from Cons.prems(1) obtain s1 where
    f: "fire drv l s = Some s1" and e: "exec drv ls s1 = Some s'"
    by (auto split: option.splits)
  from sinv_fire [OF Cons.prems(2,3) f] Cons.IH [OF e _ Cons.prems(3)] show ?case by simp
qed

lemma steps_nonempty:
  "fire drv l s = Some s' \<Longrightarrow> l \<in> set (labels s) \<Longrightarrow> steps drv s \<noteq> []"
  by (auto simp: steps_def List.map_filter_def filter_empty_conv)

lemma sinv_progress:
  assumes "sinv c h w fns s" "live c h" "k < length fns" "\<forall>e. callers s ! k \<noteq> DoReturned e"
  shows "steps drv s \<noteq> []"
proof -
  have rk: "runner_ok c fns s" and cr: "crashed s = None" and cx: "ctx s = c"
    and hp: "heap s = h" and len: "length (callers s) = length fns"
    using assms(1) by (simp_all add: sinv_def)
  have co: "caller_ok c fns s j" if "j < length fns" for j
    using assms(1) that by (simp add: sinv_def)
  from assms(2) obtain wc ec where
    wc: "work c = Some wc" "\<not> is_closed h wc" and ec: "errChan c = Some ec" "\<not> is_closed h ec"
    by (auto simp: live_def chan_valid_def is_closed_def split: option.splits)
  from rk consider
    (sel) "runner s = Some (RunSelect (work c) (doneChan c))" |
    (call) j where "runner s = Some (RunCall j (Some (fns ! j)))" "j < length fns" |
    (push) j e where "runner s = Some (RunPush j (errChan c) e)" "j < length fns"
      "j \<in> set (received (trace s))"
    by (auto simp: runner_ok_def split: option.splits runloop.splits)
  then show ?thesis
  proof cases
    case sel
    from co [OF assms(3)] assms(4) sel have "callers s ! k = DoSend (work c) (Some (fns ! k))"
      by (auto simp: caller_ok_def inflight_def split: caller.splits)
    then have "fire drv (Accept k) s \<noteq> None"
      using sel cr wc hp len assms(3) by (simp add: fire_def accept_def)
    moreover have "Accept k \<in> set (labels s)"
      using len assms(3) by (auto simp: labels_def)
    ultimately show ?thesis using steps_nonempty by blast
  next
    case call
    then have "fire drv Call s \<noteq> None"
      using cr by (simp add: fire_def call_def split: prod.splits)
    moreover have "Call \<in> set (labels s)" by (simp add: labels_def)
    ultimately show ?thesis using steps_nonempty by blast
  next
    case push
    from co [OF push(2)] push(1,3) have "callers s ! j = DoRecv (errChan c)"
      by (auto simp: caller_ok_def inflight_def split: caller.splits)
    then have "fire drv (Push j) s \<noteq> None"
      using push cr ec hp len by (simp add: fire_def push_def)
    moreover have "Push j \<in> set (labels s)"
      using len push(2) by (auto simp: labels_def)
    ultimately show ?thesis using steps_nonempty by blast
  qed
qed

lemma sinv_bound:
  assumes "sinv c h w fns s"
  shows "length (trace s) \<le> 3 * length fns"
proof -
  have d: "distinct (received (trace s))" and sub: "set (received (trace s)) \<subseteq> {..<length fns}"
    and len: "length (trace s) =
      length (received (trace s)) + length (invoked (trace s)) + length (delivered (trace s))"
    and st: "\<forall>p. phase_of (runner s) = Some p \<longrightarrow> in_step p (trace s)"
    and rk: "runner_ok c fns s"
    using assms by (simp_all add: sinv_def)
  have "length (received (trace s)) = card (set (received (trace s)))"
    using d by (simp add: distinct_card)
  also have "\<dots> \<le> card {..<length fns}" using sub by (intro card_mono) auto
  finally have r: "length (received (trace s)) \<le> length fns" by simp
  from rk obtain p where "phase_of (runner s) = Some p"
    by (auto simp: runner_ok_def phase_of_def split: option.splits runloop.splits)
  with st have "in_step p (trace s)" by blast
  then have "length (invoked (trace s)) \<le> length (received (trace s))"
    "length (delivered (trace s)) \<le> length (received (trace s))"
    by (auto simp: in_step_def split: phase.splits)
  with r len show ?thesis by simp
qed

lemma live_ctx1: "live ctx1 [False, False]"
  by (simp add: live_def ctx1_def chan_valid_def)

lemma served_run:
  "exec driver_ok [Accept 1, Call, Push 1, Accept 0, Call, Push 0]
     (running ctx1 [False, False] [] [log_ok 0, log_fail 1]) = Some served"
  by (simp add: running_def submit_def idle_def Do_def ctx1_def fire_def accept_def call_def
      push_def is_closed_def log_ok_def log_fail_def served_def)

subsection \<open>Theorems: \<^verbatim>\<open>Do\<close> on a running executor\<close>

text \<open>
  Claim C2. On a running executor (channels as a constructor leaves them, the run loop
  in its select, one goroutine inside Do for each closure), whatever the schedule:
  the program has not panicked; a Do that has returned has returned exactly the error
  its own closure gave when the run loop invoked it; the schedule has at most three
  transitions per call; and while some Do has not returned, a transition is enabled.
  So every Do returns, and returns its closure's error.
\<close>

theorem Do_returns_closure_error:
  assumes "live c h" and "exec drv sched (running c h w fns) = Some s"
  shows "crashed s = None \<and>
         (\<forall>k<length fns. \<forall>e. callers s ! k = DoReturned e \<longrightarrow>
            (\<exists>v. Invoked k v e \<in> set (trace s) \<and> e = fst ((fns ! k) v))) \<and>
         length sched \<le> 3 * length fns \<and>
         ((\<exists>k<length fns. \<forall>e. callers s ! k \<noteq> DoReturned e) \<longrightarrow> steps drv s \<noteq> [])"
proof -
  from sinv_exec [OF assms(2) sinv_init [OF assms(1)] assms(1)] have
    inv: "sinv c h w fns s" and n: "length (trace s) = length sched"
    by (simp_all add: running_def submit_def idle_def)
  have "crashed s = None" using inv by (simp add: sinv_def)
  moreover have "\<exists>v. Invoked k v e \<in> set (trace s) \<and> e = fst ((fns ! k) v)"
    if "k < length fns" "callers s ! k = DoReturned e" for k e
  proof -
    from inv that(1) have "caller_ok c fns s k" by (simp add: sinv_def)
    with that(2) show ?thesis by (simp add: caller_ok_def produced_def)
  qed
  moreover have "length sched \<le> 3 * length fns" using sinv_bound [OF inv] n by simp
  moreover have "steps drv s \<noteq> []" if "\<exists>k<length fns. \<forall>e. callers s ! k \<noteq> DoReturned e"
    using that sinv_progress [OF inv assms(1)] by blast
  ultimately show ?thesis by blast
qed

theorem Do_returns_closure_error_witness:
  "live ctx1 [False, False] \<and>
   exec driver_ok [Accept 1, Call, Push 1, Accept 0, Call, Push 0]
     (running ctx1 [False, False] [] [log_ok 0, log_fail 1]) = Some served \<and>
   crashed served = None \<and>
   callers served ! 1 = DoReturned (Some ''X'') \<and>
   (\<exists>v. Invoked 1 v (Some ''X'') \<in> set (trace served) \<and> Some ''X'' = fst (log_fail 1 v)) \<and>
   callers served ! 0 = DoReturned None \<and>
   (\<exists>v. Invoked 0 v None \<in> set (trace served) \<and> None = fst (log_ok 0 v)) \<and>
   length [Accept 1, Call, Push 1, Accept 0, Call, Push 0] \<le>
     3 * length [log_ok 0 :: nat list closure, log_fail 1]"
proof -
  note t = Do_returns_closure_error [OF live_ctx1 served_run]
  have c1: "callers served ! 1 = DoReturned (Some ''X'')"
    and c0: "callers served ! 0 = DoReturned None"
    by (simp_all add: served_def)
  have cr: "crashed served = None"
    by (rule t [THEN conjunct1])
  note q = t [THEN conjunct2, THEN conjunct1, rule_format]
  have e1:
    "\<exists>v. Invoked 1 v (Some ''X'') \<in> set (trace served) \<and> Some ''X'' = fst (log_fail 1 v)"
    using q [of 1 "Some ''X''"] c1 by simp
  have e0:
    "\<exists>v. Invoked 0 v None \<in> set (trace served) \<and> None = fst (log_ok 0 v)"
    using q [of 0 None] c0 by simp
  have b: "length [Accept 1, Call, Push 1, Accept 0, Call, Push 0] \<le>
            3 * length [log_ok 0 :: nat list closure, log_fail 1]"
    by (rule t [THEN conjunct2, THEN conjunct2, THEN conjunct1])
  show ?thesis
    by (intro conjI) (fact live_ctx1 served_run cr c1 e1 c0 e0 b)+
qed

text \<open>
  Claim C1. On a running executor, whatever the schedule, the trace of the run loop is
  serial: a sequence of rounds, each one task received, that task invoked, its result
  delivered to the caller that sent it, so no closure runs while another round is
  open. Closures are invoked in the order the tasks were received and results are
  delivered in the order of invocation, each list at most one element behind. No task
  is received twice. The state the closures share is the one obtained by running them
  one after the other in the order of receipt. Once every Do has returned, every task
  has been received and exactly one result has been delivered for each.
\<close>

theorem Run_serializes_tasks:
  assumes "live c h" and "exec drv sched (running c h w fns) = Some s"
  shows "serial (trace s) \<and>
         prefix (invoked (trace s)) (received (trace s)) \<and>
         length (received (trace s)) \<le> Suc (length (invoked (trace s))) \<and>
         prefix (delivered (trace s)) (invoked (trace s)) \<and>
         length (invoked (trace s)) \<le> Suc (length (delivered (trace s))) \<and>
         distinct (received (trace s)) \<and> set (received (trace s)) \<subseteq> {..<length fns} \<and>
         world s = replay fns (invoked (trace s)) w \<and>
         ((\<forall>k<length fns. \<exists>e. callers s ! k = DoReturned e) \<longrightarrow>
            delivered (trace s) = received (trace s) \<and>
            set (received (trace s)) = {..<length fns})"
proof -
  from sinv_exec [OF assms(2) sinv_init [OF assms(1)] assms(1)] have
    inv: "sinv c h w fns s" by simp
  have rk: "runner_ok c fns s"
    and tr: "foldl track (Some Idle) (trace s) = phase_of (runner s)"
    and st: "\<forall>p. phase_of (runner s) = Some p \<longrightarrow> in_step p (trace s)"
    using inv by (simp_all add: sinv_def)
  from rk obtain p where p: "phase_of (runner s) = Some p"
    by (auto simp: runner_ok_def phase_of_def split: option.splits runloop.splits)
  with st have ins: "in_step p (trace s)" by blast
  have "serial (trace s)" using tr p by (simp add: serial_def)
  moreover have "prefix (invoked (trace s)) (received (trace s)) \<and>
         length (received (trace s)) \<le> Suc (length (invoked (trace s))) \<and>
         prefix (delivered (trace s)) (invoked (trace s)) \<and>
         length (invoked (trace s)) \<le> Suc (length (delivered (trace s)))"
    using ins by (auto simp: in_step_def split: phase.splits)
  moreover have "distinct (received (trace s))" "set (received (trace s)) \<subseteq> {..<length fns}"
    "world s = replay fns (invoked (trace s)) w"
    using inv by (simp_all add: sinv_def)
  moreover have "delivered (trace s) = received (trace s) \<and>
            set (received (trace s)) = {..<length fns}"
    if all: "\<forall>k<length fns. \<exists>e. callers s ! k = DoReturned e"
  proof -
    have ret: "inflight (runner s) \<noteq> Some k \<and> k \<in> set (received (trace s))"
      if "k < length fns" for k
    proof -
      from inv that have "caller_ok c fns s k" by (simp add: sinv_def)
      moreover from all that obtain e where "callers s ! k = DoReturned e" by blast
      ultimately show ?thesis by (simp add: caller_ok_def)
    qed
    have "p = Idle"
      using rk p ret
      by (auto simp: runner_ok_def phase_of_def inflight_def split: option.splits runloop.splits)
    with ins have "delivered (trace s) = received (trace s)" by (simp add: in_step_def)
    moreover have "set (received (trace s)) = {..<length fns}"
      using ret inv by (auto simp: sinv_def)
    ultimately show ?thesis by simp
  qed
  ultimately show ?thesis by blast
qed

theorem Run_serializes_tasks_witness:
  "live ctx1 [False, False] \<and>
   exec driver_ok [Accept 1, Call, Push 1, Accept 0, Call, Push 0]
     (running ctx1 [False, False] [] [log_ok 0, log_fail 1]) = Some served \<and>
   serial (trace served) \<and>
   received (trace served) = [1, 0] \<and> invoked (trace served) = [1, 0] \<and>
   delivered (trace served) = [1, 0] \<and>
   prefix (invoked (trace served)) (received (trace served)) \<and>
   prefix (delivered (trace served)) (invoked (trace served)) \<and>
   distinct (received (trace served)) \<and>
   world served = [1, 0] \<and>
   world served = replay [log_ok 0, log_fail 1] (invoked (trace served)) []"
proof -
  note t = Run_serializes_tasks [OF live_ctx1 served_run]
  have r: "received (trace served) = [1, 0]" "invoked (trace served) = [1, 0]"
    "delivered (trace served) = [1, 0]" "world served = [1, 0]"
    by (simp_all add: served_def received_def invoked_def delivered_def List.map_filter_simps)
  have s1: "serial (trace served)" by (rule t [THEN conjunct1])
  have s2: "prefix (invoked (trace served)) (received (trace served))"
    by (rule t [THEN conjunct2, THEN conjunct1])
  have s3: "prefix (delivered (trace served)) (invoked (trace served))"
    by (rule t [THEN conjunct2, THEN conjunct2, THEN conjunct2, THEN conjunct1])
  have s4: "distinct (received (trace served))"
    by (rule t [THEN conjunct2, THEN conjunct2, THEN conjunct2, THEN conjunct2,
          THEN conjunct2, THEN conjunct1])
  have s5: "world served = replay [log_ok 0, log_fail 1] (invoked (trace served)) []"
    by (rule t [THEN conjunct2, THEN conjunct2, THEN conjunct2, THEN conjunct2,
          THEN conjunct2, THEN conjunct2, THEN conjunct2, THEN conjunct1])
  show ?thesis
    by (intro conjI) (fact live_ctx1 served_run r s1 s2 s3 s4 s5)+
qed

end
